theory Spec2Isabelle
  imports Main "HOL-Library.AList" "HOL-Library.Char_ord" "HOL-Library.List_Lexorder" "HOL-Library.Multiset" "HOL-Library.Sublist"
begin

section \<open>Data model\<close>

text \<open>
  A hit is the dictionary \<^verbatim>\<open>{'id': ..., 'rank': ...}\<close> built by the two response
  parsers of \<^verbatim>\<open>app.py\<close>; a vault record is the dictionary with the keys
  \<^verbatim>\<open>title\<close>, \<^verbatim>\<open>type\<close>, \<^verbatim>\<open>path\<close> and \<^verbatim>\<open>chunk\<close> built by
  \<^verbatim>\<open>create_vault_dict\<close>. The vault is a Python \<^verbatim>\<open>dict\<close>: an association list in
  insertion order, read with \<^const>\<open>map_of\<close> and written with \<^const>\<open>AList.update\<close>.
\<close>

record hit =
  hit_id :: string
  hit_rank :: int

record vault_doc =
  title :: string
  doc_type :: string
  path :: string
  chunk :: string

type_synonym vault = "(string \<times> vault_doc) list"

record context_chunk =
  ctx_title :: string
  ctx_chunk :: string

text \<open>
  The exceptions the modelled functions raise: a missing string key, a missing integer
  key, \<^verbatim>\<open>np.concatenate\<close> of no arrays, a zero modulus, a file that cannot be opened.
\<close>

datatype error =
  KeyError string | KeyErrorInt nat | ValueError | ZeroDivisionError | FileNotFoundError string

section \<open>Rank fusion and context assembly (\<^verbatim>\<open>app.py\<close>)\<close>

text \<open>The lambda of \<^verbatim>\<open>df['rank'].apply(lambda x: 10 - x)\<close>.\<close>

definition score :: "int \<Rightarrow> int" where
  "score x = 10 - x"

text \<open>
  \<^verbatim>\<open>df.groupby('id').agg({'score': 'sum'})\<close>: one row per distinct id, the group keys in
  ascending order, the scores of the rows of a group added up.
\<close>

definition groupby_sum :: "(string \<times> int) list \<Rightarrow> (string \<times> int) list" where
  "groupby_sum rows =
     map (\<lambda>k. (k, sum_list (map snd (filter (\<lambda>r. fst r = k) rows))))
       (sort (remdups (map fst rows)))"

text \<open>
  \<^verbatim>\<open>.sort_values('score', ascending=False)\<close>: the library sorts the reversed column in
  ascending order and reverses the result. The sort is modelled by the stable insertion
  sort \<^const>\<open>sort_key\<close>, so rows of equal score stay in group-key order; the library
  promises no order among equal scores, and no statement below depends on one.
\<close>

definition sort_values_desc :: "(string \<times> int) list \<Rightarrow> (string \<times> int) list" where
  "sort_values_desc rows = rev (sort_key snd (rev rows))"

text \<open>The data frame \<^verbatim>\<open>ranked\<close> (columns \<^verbatim>\<open>id\<close> and \<^verbatim>\<open>score\<close>) of a non-empty hit list.\<close>

definition ranked :: "hit list \<Rightarrow> (string \<times> int) list" where
  "ranked hits =
     sort_values_desc (groupby_sum (map (\<lambda>h. (hit_id h, score (hit_rank h))) hits))"

text \<open>\<^verbatim>\<open>ranked['id'].tolist()\<close>.\<close>

definition ranked_ids :: "hit list \<Rightarrow> string list" where
  "ranked_ids hits = map fst (ranked hits)"

text \<open>
  The selection loop, with the state \<^verbatim>\<open>token_count\<close> and \<^verbatim>\<open>chunks\<close> passed along.
  \<^verbatim>\<open>vault[id]\<close> raises \<^verbatim>\<open>KeyError\<close> for an absent id; \<^verbatim>\<open>break\<close> returns what has been
  collected. The tokenizer \<^verbatim>\<open>num_tokens_from_string(_, model_name)\<close> is a parameter.
\<close>

fun select_chunks ::
  "vault \<Rightarrow> (string \<Rightarrow> nat) \<Rightarrow> int \<Rightarrow> string list \<Rightarrow> int \<Rightarrow> context_chunk list
     \<Rightarrow> error + context_chunk list" where
  "select_chunks vault num_tokens max_tokens [] token_count chunks = Inr chunks"
| "select_chunks vault num_tokens max_tokens (i # ids) token_count chunks =
     (case map_of vault i of
        None \<Rightarrow> Inl (KeyError i)
      | Some d \<Rightarrow>
          (let token_count' = token_count + int (num_tokens (chunk d))
           in if token_count' > max_tokens then Inr chunks
              else select_chunks vault num_tokens max_tokens ids token_count'
                     (chunks @ [\<lparr>ctx_title = title d, ctx_chunk = chunk d\<rparr>])))"

text \<open>
  \<^verbatim>\<open>get_chunks_from_hits\<close>. A data frame built from the empty list has no columns, so
  \<^verbatim>\<open>df['rank']\<close> raises \<^verbatim>\<open>KeyError: 'rank'\<close> before anything else happens.
\<close>

definition get_chunks_from_hits ::
  "vault \<Rightarrow> (string \<Rightarrow> nat) \<Rightarrow> hit list \<Rightarrow> int \<Rightarrow> error + context_chunk list" where
  "get_chunks_from_hits vault num_tokens hits max_tokens =
     (if hits = [] then Inl (KeyError ''rank'')
      else select_chunks vault num_tokens max_tokens (ranked_ids hits) 0 [])"

subsection \<open>Vocabulary of the statements\<close>

text \<open>The token count of the chunk stored under an id, and the running total of a list of ids.\<close>

definition chunk_tokens :: "vault \<Rightarrow> (string \<Rightarrow> nat) \<Rightarrow> string \<Rightarrow> int" where
  "chunk_tokens vault num_tokens i =
     (case map_of vault i of None \<Rightarrow> 0 | Some d \<Rightarrow> int (num_tokens (chunk d)))"

definition cumulative_tokens :: "vault \<Rightarrow> (string \<Rightarrow> nat) \<Rightarrow> string list \<Rightarrow> int" where
  "cumulative_tokens vault num_tokens ids = sum_list (map (chunk_tokens vault num_tokens) ids)"

text \<open>The output entry of an id that the vault holds.\<close>

definition entry_of :: "vault \<Rightarrow> string \<Rightarrow> context_chunk" where
  "entry_of vault i =
     (case map_of vault i of
        None \<Rightarrow> \<lparr>ctx_title = [], ctx_chunk = []\<rparr>
      | Some d \<Rightarrow> \<lparr>ctx_title = title d, ctx_chunk = chunk d\<rparr>)"

text \<open>The combined score of an id, in the words of the scoring rule.\<close>

definition combined_score :: "hit list \<Rightarrow> string \<Rightarrow> int" where
  "combined_score hits i = sum_list (map (\<lambda>h. 10 - hit_rank h) (filter (\<lambda>h. hit_id h = i) hits))"

section \<open>The scenario of the specification\<close>

text \<open>
  Vault \<^verbatim>\<open>{A: 50 tokens, B: 50 tokens, C: 5000 tokens}\<close>, lexical hits \<^verbatim>\<open>[A, C]\<close>, semantic hits
  \<^verbatim>\<open>[B, A]\<close>, concatenated as \<^verbatim>\<open>os_hits + semantic_hits\<close>.
\<close>

definition scenario_vault :: vault where
  "scenario_vault =
     [(''A'', \<lparr>title = ''a.md'', doc_type = ''chunk'', path = ''a.md'', chunk = ''a''\<rparr>),
      (''B'', \<lparr>title = ''b.md'', doc_type = ''chunk'', path = ''b.md'', chunk = ''b''\<rparr>),
      (''C'', \<lparr>title = ''c.md'', doc_type = ''chunk'', path = ''c.md'', chunk = ''c''\<rparr>)]"

definition scenario_tokens :: "string \<Rightarrow> nat" where
  "scenario_tokens s = (if s = ''c'' then 5000 else 50)"

definition scenario_hits :: "hit list" where
  "scenario_hits =
     [\<lparr>hit_id = ''A'', hit_rank = 0\<rparr>, \<lparr>hit_id = ''C'', hit_rank = 1\<rparr>,
      \<lparr>hit_id = ''B'', hit_rank = 0\<rparr>, \<lparr>hit_id = ''A'', hit_rank = 1\<rparr>]"

text \<open>
  Hits whose score order (\<^verbatim>\<open>B\<close> 19, \<^verbatim>\<open>A\<close> 8, \<^verbatim>\<open>C\<close> 7) is neither the order of the ids nor
  the order of the hits.
\<close>

definition fusion_hits :: "hit list" where
  "fusion_hits =
     [\<lparr>hit_id = ''B'', hit_rank = 0\<rparr>, \<lparr>hit_id = ''C'', hit_rank = 3\<rparr>,
      \<lparr>hit_id = ''A'', hit_rank = 2\<rparr>, \<lparr>hit_id = ''B'', hit_rank = 1\<rparr>]"

text \<open>A chunk at rank 0 in one source and rank 2 in the other, among other hits.\<close>

definition dedup_hits :: "hit list" where
  "dedup_hits =
     [\<lparr>hit_id = ''X'', hit_rank = 0\<rparr>, \<lparr>hit_id = ''Y'', hit_rank = 1\<rparr>,
      \<lparr>hit_id = ''Z'', hit_rank = 0\<rparr>, \<lparr>hit_id = ''Y'', hit_rank = 1\<rparr>,
      \<lparr>hit_id = ''X'', hit_rank = 2\<rparr>]"



section \<open>Semantic index (\<^verbatim>\<open>build_semantic_index.py\<close>)\<close>

text \<open>
  The encoder is opaque: the normalized query embedding is a parameter, and a vector is
  a list of numbers of an ordered ring (rounding and NaN are not modelled).
  \<^verbatim>\<open>np.dot(doc_embeddings_array, query_embedding.T).flatten()\<close> has one entry per row.
\<close>

definition dot :: "'a::linordered_idom list \<Rightarrow> 'a list \<Rightarrow> 'a" where
  "dot u v = sum_list (map2 (*) u v)"

text \<open>
  \<^verbatim>\<open>np.argsort\<close>: the indices in the order of ascending value. The sort is modelled by
  the stable \<^const>\<open>sort_key\<close>; the library promises no order among equal values.
\<close>

definition argsort :: "'a::linorder list \<Rightarrow> nat list" where
  "argsort xs = sort_key (\<lambda>i. xs ! i) [0..<length xs]"

text \<open>
  The slice \<^verbatim>\<open>a[start:]\<close>: a negative start counts from the end, and the start is
  clamped to the list.
\<close>

definition slice_from :: "int \<Rightarrow> 'a list \<Rightarrow> 'a list" where
  "slice_from start xs =
     (let n = int (length xs);
          s = (if start < 0 then max (start + n) 0 else min start n)
      in drop (nat s) xs)"

text \<open>\<^verbatim>\<open>query_semantic\<close>: \<^verbatim>\<open>np.argsort(cos_sims)[-n_results:][::-1]\<close>.\<close>

definition query_semantic :: "'a::linordered_idom list \<Rightarrow> 'a list list \<Rightarrow> int \<Rightarrow> nat list" where
  "query_semantic query_embedding doc_embeddings_array n_results =
     (let cos_sims = map (\<lambda>row. dot row query_embedding) doc_embeddings_array
      in rev (slice_from (- n_results) (argsort cos_sims)))"

text \<open>The similarity of a row, as the statements read it.\<close>

definition cos_sim :: "'a::linordered_idom list \<Rightarrow> 'a list list \<Rightarrow> nat \<Rightarrow> 'a" where
  "cos_sim query_embedding doc_embeddings_array i = dot (doc_embeddings_array ! i) query_embedding"

text \<open>
  \<^verbatim>\<open>build_embedding_index\<close>: the loop over \<^verbatim>\<open>vault.items()\<close> with the state
  \<^verbatim>\<open>embedding_index\<close> and \<^verbatim>\<open>embedding_idx\<close>.
\<close>

fun index_chunks :: "vault \<Rightarrow> (nat \<times> string) list \<Rightarrow> nat \<Rightarrow> (nat \<times> string) list" where
  "index_chunks [] embedding_index embedding_idx = embedding_index"
| "index_chunks ((chunk_id, doc) # rest) embedding_index embedding_idx =
     (if doc_type doc = ''doc'' then index_chunks rest embedding_index embedding_idx
      else index_chunks rest (AList.update embedding_idx chunk_id embedding_index)
             (embedding_idx + 1))"

definition build_embedding_index :: "vault \<Rightarrow> (nat \<times> string) list" where
  "build_embedding_index vault = index_chunks vault [] 0"

text \<open>
  \<^verbatim>\<open>parse_semantic_response\<close> of \<^verbatim>\<open>app.py\<close>: the loop over \<^verbatim>\<open>enumerate(indices)\<close>;
  \<^verbatim>\<open>embedding_index[idx]\<close> raises \<^verbatim>\<open>KeyError\<close> for a row without an entry.
\<close>

fun parse_semantic_loop ::
  "(nat \<times> string) list \<Rightarrow> nat list \<Rightarrow> nat \<Rightarrow> hit list \<Rightarrow> error + hit list" where
  "parse_semantic_loop embedding_index [] rank hits = Inr hits"
| "parse_semantic_loop embedding_index (idx # indices) rank hits =
     (case map_of embedding_index idx of
        None \<Rightarrow> Inl (KeyErrorInt idx)
      | Some chunk_id \<Rightarrow>
          parse_semantic_loop embedding_index indices (rank + 1)
            (hits @ [\<lparr>hit_id = chunk_id, hit_rank = int rank\<rparr>]))"

definition parse_semantic_response :: "nat list \<Rightarrow> (nat \<times> string) list \<Rightarrow> error + hit list" where
  "parse_semantic_response indices embedding_index =
     parse_semantic_loop embedding_index indices 0 []"

text \<open>The ids of the records that both builders keep, in the iteration order of the vault.\<close>

definition embedded_ids :: "vault \<Rightarrow> string list" where
  "embedded_ids vault = map fst (filter (\<lambda>(chunk_id, doc). doc_type doc \<noteq> ''doc'') vault)"

text \<open>
  \<^verbatim>\<open>"passage: " + " ".join(doc["chunk"].split())\<close>. \<^verbatim>\<open>str.split()\<close> cuts at runs of
  whitespace and yields no empty word; the whitespace characters of the ASCII range are
  modelled.
\<close>

definition is_space :: "char \<Rightarrow> bool" where
  "is_space c \<longleftrightarrow>
     c \<in> set [CHR '' '', CHR 0x09, CHR 0x0A, CHR 0x0B, CHR 0x0C, CHR 0x0D,
              CHR 0x1C, CHR 0x1D, CHR 0x1E, CHR 0x1F]"

fun split_ws :: "string \<Rightarrow> string \<Rightarrow> string list" where
  "split_ws word [] = (if word = [] then [] else [word])"
| "split_ws word (c # cs) =
     (if is_space c then (if word = [] then split_ws [] cs else word # split_ws [] cs)
      else split_ws (word @ [c]) cs)"

fun join :: "string \<Rightarrow> string list \<Rightarrow> string" where
  "join sep [] = []"
| "join sep [w] = w"
| "join sep (w # ws) = w @ sep @ join sep ws"

definition process_chunk :: "string \<Rightarrow> string" where
  "process_chunk text = ''passage: '' @ join '' '' (split_ws [] text)"

text \<open>
  The loop of \<^verbatim>\<open>build_embedding_array\<close> with the state \<^verbatim>\<open>chunk_batch\<close>,
  \<^verbatim>\<open>chunks_batched\<close> and \<^verbatim>\<open>embedding_list\<close> (the counter \<^verbatim>\<open>docs_embedded\<close> only feeds
  the log). The embedder \<^verbatim>\<open>get_batch_embeddings(_, tokenizer, model)\<close> is a parameter that
  maps a batch of texts to an array, a list of rows. \<^verbatim>\<open>chunks_batched % batch_size\<close> raises
  \<^verbatim>\<open>ZeroDivisionError\<close> for a zero batch size.
\<close>

fun embed_chunks ::
  "(string list \<Rightarrow> 'e list) \<Rightarrow> int \<Rightarrow> vault \<Rightarrow> string list \<Rightarrow> int \<Rightarrow> 'e list list
     \<Rightarrow> error + (string list \<times> int \<times> 'e list list)" where
  "embed_chunks get_batch_embeddings batch_size [] chunk_batch chunks_batched embedding_list =
     Inr (chunk_batch, chunks_batched, embedding_list)"
| "embed_chunks get_batch_embeddings batch_size ((chunk_id, doc) # rest)
       chunk_batch chunks_batched embedding_list =
     (if doc_type doc = ''doc''
      then embed_chunks get_batch_embeddings batch_size rest
             chunk_batch chunks_batched embedding_list
      else
        (let chunk_batch' = chunk_batch @ [process_chunk (chunk doc)];
             chunks_batched' = chunks_batched + 1
         in if batch_size = 0 then Inl ZeroDivisionError
            else if chunks_batched' mod batch_size = 0
            then embed_chunks get_batch_embeddings batch_size rest [] 0
                   (embedding_list @ [get_batch_embeddings chunk_batch'])
            else embed_chunks get_batch_embeddings batch_size rest
                   chunk_batch' chunks_batched' embedding_list))"

text \<open>
  \<^verbatim>\<open>build_embedding_array\<close>: the rest of the last batch is embedded, and
  \<^verbatim>\<open>np.concatenate\<close> raises \<^verbatim>\<open>ValueError\<close> when there is no array to concatenate. The
  final reshape keeps the rows of a two-dimensional array.
\<close>

definition build_embedding_array ::
  "vault \<Rightarrow> (string list \<Rightarrow> 'e list) \<Rightarrow> int \<Rightarrow> error + 'e list" where
  "build_embedding_array vault get_batch_embeddings batch_size =
     (case embed_chunks get_batch_embeddings batch_size vault [] 0 [] of
        Inl e \<Rightarrow> Inl e
      | Inr (chunk_batch, chunks_batched, embedding_list) \<Rightarrow>
          (let embedding_list' =
                 (if chunks_batched > 0
                  then embedding_list @ [get_batch_embeddings chunk_batch]
                  else embedding_list)
           in if embedding_list' = [] then Inl ValueError else Inr (concat embedding_list')))"

text \<open>The text stored under a chunk id.\<close>

definition chunk_of :: "vault \<Rightarrow> string \<Rightarrow> string" where
  "chunk_of vault chunk_id = (case map_of vault chunk_id of None \<Rightarrow> [] | Some doc \<Rightarrow> chunk doc)"

text \<open>The texts handed to the embedder, in the iteration order of the vault.\<close>

definition embedded_texts :: "vault \<Rightarrow> string list" where
  "embedded_texts vault =
     map (\<lambda>(chunk_id, doc). process_chunk (chunk doc))
       (filter (\<lambda>(chunk_id, doc). doc_type doc \<noteq> ''doc'') vault)"

text \<open>A vault with one document record and its two chunk records.\<close>

definition semantic_vault :: vault where
  "semantic_vault =
     [(''n.md'', \<lparr>title = ''n.md'', doc_type = ''doc'', path = ''n.md'', chunk = ''a b  c d''\<rparr>),
      (''n.md-0'', \<lparr>title = ''n.md'', doc_type = ''chunk'', path = ''n.md'', chunk = ''a b''\<rparr>),
      (''n.md-1'', \<lparr>title = ''n.md'', doc_type = ''chunk'', path = ''n.md'', chunk = '' c d''\<rparr>)]"

section \<open>Vault ingestion (\<^verbatim>\<open>build_vault_dict.py\<close>)\<close>

text \<open>
  The state of the loop of \<^verbatim>\<open>chunk_doc_to_dict\<close>. The dictionary \<^verbatim>\<open>chunks\<close> is an
  association list from the chunk index to the lines of the chunk.
\<close>

record chunker =
  chunks :: "(nat \<times> string list) list"
  current_chunk :: "string list"
  chunk_idx :: nat
  current_header :: "string option"

text \<open>The four tests that skip a line: empty lines, tags, sources, images.\<close>

definition skipped :: "string \<Rightarrow> bool" where
  "skipped line \<longleftrightarrow>
     prefix [CHR 0x0A] line \<or> prefix ''- tag'' line \<or> prefix ''- source'' line \<or>
     sublist ''![](assets'' line"

text \<open>
  The body of the loop for one line. \<^verbatim>\<open>if current_chunk:\<close> and \<^verbatim>\<open>if current_header:\<close> test
  for a non-empty list and for a header that is neither \<^verbatim>\<open>None\<close> nor the empty string.
\<close>

definition chunk_line :: "int \<Rightarrow> chunker \<Rightarrow> string \<Rightarrow> chunker" where
  "chunk_line min_chunk_lines s line =
     (if skipped line then s
      else
        (let s1 = (if prefix ''#'' line then s\<lparr>current_header := Some line\<rparr> else s);
             s2 =
               (if prefix ''- '' line \<and> current_chunk s1 \<noteq> [] then
                  (let s3 =
                         (if int (length (current_chunk s1)) \<ge> min_chunk_lines
                          then s1\<lparr>chunks := AList.update (chunk_idx s1) (current_chunk s1) (chunks s1),
                                  chunk_idx := chunk_idx s1 + 1\<rparr>
                          else s1)
                   in s3\<lparr>current_chunk :=
                          (case current_header s3 of
                             None \<Rightarrow> []
                           | Some h \<Rightarrow> if h = [] then [] else [h])\<rparr>)
                else s1)
         in s2\<lparr>current_chunk := current_chunk s2 @ [line]\<rparr>))"

text \<open>\<^verbatim>\<open>chunk_doc_to_dict\<close>: the loop, then the check for the last chunk.\<close>

definition chunk_doc_to_dict :: "string list \<Rightarrow> int \<Rightarrow> (nat \<times> string list) list" where
  "chunk_doc_to_dict lines min_chunk_lines =
     (let s = foldl (chunk_line min_chunk_lines)
                \<lparr>chunks = [], current_chunk = [], chunk_idx = 0, current_header = None\<rparr> lines
      in if current_chunk s \<noteq> [] \<and> int (length (current_chunk s)) > min_chunk_lines
         then AList.update (chunk_idx s) (current_chunk s) (chunks s)
         else chunks s)"









text \<open>Documents for the examples: three plain lines, the same with a bullet behind, six bullets.\<close>

definition three_lines :: "string list" where
  "three_lines = [''a'' @ [CHR 0x0A], ''b'' @ [CHR 0x0A], ''c'' @ [CHR 0x0A]]"










section \<open>Properties of the ranked frame\<close>

lemma groupby_sum_keys: "map fst (groupby_sum rows) = sort (remdups (map fst rows))"
  by (simp add: groupby_sum_def comp_def)

lemma sort_values_desc_mset: "mset (sort_values_desc rows) = mset rows"
  by (simp add: sort_values_desc_def)

lemma sort_values_desc_set: "set (sort_values_desc rows) = set rows"
  by (simp add: sort_values_desc_def)

lemma sort_values_desc_sorted:
  "sorted_wrt (\<lambda>a b. snd b \<le> snd a) (sort_values_desc rows)"
proof -
  have "sorted (map snd (sort_key snd (rev rows)))" by (rule sorted_sort_key)
  then have "sorted_wrt (\<lambda>a b. snd a \<le> snd b) (sort_key snd (rev rows))"
    by (simp add: sorted_map)
  then show ?thesis
    unfolding sort_values_desc_def by (simp add: sorted_wrt_rev)
qed

lemma ranked_ids_distinct: "distinct (ranked_ids hits)"
proof -
  let ?g = "groupby_sum (map (\<lambda>h. (hit_id h, score (hit_rank h))) hits)"
  have "mset (map fst (sort_values_desc ?g)) = mset (map fst ?g)"
    by (simp add: sort_values_desc_mset)
  moreover have "distinct (map fst ?g)" by (simp add: groupby_sum_keys)
  ultimately show ?thesis
    unfolding ranked_ids_def ranked_def by (metis mset_eq_imp_distinct_iff)
qed

lemma ranked_ids_set: "set (ranked_ids hits) = hit_id ` set hits"
proof -
  let ?g = "groupby_sum (map (\<lambda>h. (hit_id h, score (hit_rank h))) hits)"
  have "set (map fst (sort_values_desc ?g)) = set (map fst ?g)"
    by (simp add: sort_values_desc_set)
  also have "\<dots> = hit_id ` set hits" by (simp add: groupby_sum_keys image_image)
  finally show ?thesis by (simp add: ranked_ids_def ranked_def)
qed

lemma ranked_score: "(i, s) \<in> set (ranked hits) \<Longrightarrow> s = combined_score hits i"
proof -
  assume "(i, s) \<in> set (ranked hits)"
  then have "(i, s) \<in> set (groupby_sum (map (\<lambda>h. (hit_id h, score (hit_rank h))) hits))"
    by (simp add: ranked_def sort_values_desc_set)
  then have "s = sum_list (map snd (filter (\<lambda>r. fst r = i) (map (\<lambda>h. (hit_id h, score (hit_rank h))) hits)))"
    by (auto simp: groupby_sum_def)
  also have "\<dots> = combined_score hits i"
    by (simp add: combined_score_def filter_map comp_def score_def)
  finally show ?thesis .
qed

lemma ranked_sorted: "sorted_wrt (\<lambda>a b. snd b \<le> snd a) (ranked hits)"
  by (simp add: ranked_def sort_values_desc_sorted)

lemma ranked_mem: "i \<in> hit_id ` set hits \<Longrightarrow> (i, combined_score hits i) \<in> set (ranked hits)"
proof -
  assume "i \<in> hit_id ` set hits"
  then have "i \<in> set (ranked_ids hits)" by (simp add: ranked_ids_set)
  then obtain s where "(i, s) \<in> set (ranked hits)" by (auto simp: ranked_ids_def)
  then show ?thesis using ranked_score by blast
qed

lemma ranked_ids_sorted:
  "sorted_wrt (\<lambda>a b. combined_score hits b \<le> combined_score hits a) (ranked_ids hits)"
proof -
  have "sorted_wrt (\<lambda>p q. combined_score hits (fst q) \<le> combined_score hits (fst p)) (ranked hits)"
  proof (rule sorted_wrt_mono_rel[OF _ ranked_sorted])
    fix p q assume "p \<in> set (ranked hits)" "q \<in> set (ranked hits)" "snd q \<le> snd p"
    moreover from this have "snd p = combined_score hits (fst p)" "snd q = combined_score hits (fst q)"
      using ranked_score[of "fst p" "snd p" hits] ranked_score[of "fst q" "snd q" hits] by simp_all
    ultimately show "combined_score hits (fst q) \<le> combined_score hits (fst p)" by simp
  qed
  then show ?thesis by (simp add: ranked_ids_def sorted_wrt_map)
qed

lemma scenario_ranked: "ranked scenario_hits = [(''A'', 19), (''B'', 10), (''C'', 9)]"
  by code_simp

lemma scenario_ranked_ids: "ranked_ids scenario_hits = [''A'', ''B'', ''C'']"
  by (simp add: ranked_ids_def scenario_ranked)

lemma scenario_result:
  "get_chunks_from_hits scenario_vault scenario_tokens scenario_hits 100 =
     Inr [\<lparr>ctx_title = ''a.md'', ctx_chunk = ''a''\<rparr>, \<lparr>ctx_title = ''b.md'', ctx_chunk = ''b''\<rparr>]"
  by (simp add: get_chunks_from_hits_def scenario_ranked_ids)
     (simp add: scenario_hits_def scenario_vault_def scenario_tokens_def)

lemma fusion_ranked: "ranked fusion_hits = [(''B'', 19), (''A'', 8), (''C'', 7)]"
  by code_simp

lemma fusion_ranked_ids: "ranked_ids fusion_hits = [''B'', ''A'', ''C'']"
  by (simp add: ranked_ids_def fusion_ranked)

lemma fusion_result:
  "get_chunks_from_hits scenario_vault scenario_tokens fusion_hits 100 =
     Inr [\<lparr>ctx_title = ''b.md'', ctx_chunk = ''b''\<rparr>, \<lparr>ctx_title = ''a.md'', ctx_chunk = ''a''\<rparr>]"
  by (simp add: get_chunks_from_hits_def fusion_ranked_ids)
     (simp add: fusion_hits_def scenario_vault_def scenario_tokens_def)

section \<open>Properties of the selection loop\<close>

lemma select_chunks_prefix_within:
  "set ids \<subseteq> fst ` set vault \<Longrightarrow>
   \<exists>k\<le>length ids.
     select_chunks vault nt mx ids tc acc = Inr (acc @ map (entry_of vault) (take k ids)) \<and>
     (\<forall>j\<le>length ids. j \<le> k \<longleftrightarrow> j = 0 \<or> tc + cumulative_tokens vault nt (take j ids) \<le> mx)"
proof (induction ids arbitrary: tc acc)
  case Nil
  then show ?case by simp
next
  case (Cons i ids)
  from Cons.prems obtain d where d: "map_of vault i = Some d"
    by (metis list.set_intros(1) subsetD map_of_eq_None_iff not_None_eq)
  let ?t = "int (nt (chunk d))"
  have ct: "chunk_tokens vault nt i = ?t" by (simp add: chunk_tokens_def d)
  have nonneg: "\<And>xs. 0 \<le> cumulative_tokens vault nt xs"
    unfolding cumulative_tokens_def by (rule sum_list_nonneg) (auto simp: chunk_tokens_def split: option.splits)
  show ?case
  proof (cases "tc + ?t > mx")
    case True
    have "\<forall>j\<le>length (i # ids). j \<le> 0 \<longleftrightarrow> j = 0 \<or> tc + cumulative_tokens vault nt (take j (i # ids)) \<le> mx"
    proof (intro allI impI)
      fix j assume "j \<le> length (i # ids)"
      show "j \<le> 0 \<longleftrightarrow> j = 0 \<or> tc + cumulative_tokens vault nt (take j (i # ids)) \<le> mx"
      proof (cases j)
        case 0 then show ?thesis by simp
      next
        case (Suc j')
        have "cumulative_tokens vault nt (take j (i # ids)) = ?t + cumulative_tokens vault nt (take j' ids)"
          by (simp add: Suc cumulative_tokens_def ct)
        with True nonneg[of "take j' ids"] Suc show ?thesis by simp
      qed
    qed
    with True d show ?thesis by (intro exI[of _ 0]) (simp add: Let_def)
  next
    case False
    from Cons.prems have sub: "set ids \<subseteq> fst ` set vault" by simp
    from Cons.IH[OF sub, of "tc + ?t" "acc @ [\<lparr>ctx_title = title d, ctx_chunk = chunk d\<rparr>]"]
    obtain k where k: "k \<le> length ids"
      "select_chunks vault nt mx ids (tc + ?t) (acc @ [\<lparr>ctx_title = title d, ctx_chunk = chunk d\<rparr>])
         = Inr ((acc @ [\<lparr>ctx_title = title d, ctx_chunk = chunk d\<rparr>]) @ map (entry_of vault) (take k ids))"
      "\<forall>j\<le>length ids. j \<le> k \<longleftrightarrow> j = 0 \<or> (tc + ?t) + cumulative_tokens vault nt (take j ids) \<le> mx"
      by blast
    have e: "entry_of vault i = \<lparr>ctx_title = title d, ctx_chunk = chunk d\<rparr>"
      by (simp add: entry_of_def d)
    have "\<forall>j\<le>length (i # ids). j \<le> Suc k \<longleftrightarrow> j = 0 \<or> tc + cumulative_tokens vault nt (take j (i # ids)) \<le> mx"
    proof (intro allI impI)
      fix j assume jl: "j \<le> length (i # ids)"
      show "j \<le> Suc k \<longleftrightarrow> j = 0 \<or> tc + cumulative_tokens vault nt (take j (i # ids)) \<le> mx"
      proof (cases j)
        case 0 then show ?thesis by simp
      next
        case (Suc j')
        have c: "cumulative_tokens vault nt (take j (i # ids)) = ?t + cumulative_tokens vault nt (take j' ids)"
          by (simp add: Suc cumulative_tokens_def ct)
        from jl Suc have "j' \<le> length ids" by simp
        with k(3) have "j' \<le> k \<longleftrightarrow> j' = 0 \<or> (tc + ?t) + cumulative_tokens vault nt (take j' ids) \<le> mx" by blast
        moreover have "j' = 0 \<Longrightarrow> (tc + ?t) + cumulative_tokens vault nt (take j' ids) \<le> mx"
          using False by (simp add: cumulative_tokens_def)
        ultimately show ?thesis using Suc c by auto
      qed
    qed
    with k False d e show ?thesis by (intro exI[of _ "Suc k"]) (simp add: Let_def)
  qed
qed

section \<open>Claims about rank fusion and context assembly\<close>

text \<open>
  C1. For a non-empty hit list whose ids the vault all holds, the candidate list
  \<^const>\<open>ranked_ids\<close> holds every id of a hit exactly once, in the order of non-increasing
  combined score, and \<^const>\<open>get_chunks_from_hits\<close> returns, for every budget, the entries
  of its first \<open>k\<close> ids, where a prefix of length \<open>j\<close> is no longer than \<open>k\<close> exactly when
  it is empty or its cumulative token count is at most the budget: the longest prefix
  within the budget. The candidate that overflows is left out, and when the first
  candidate overflows the result is the empty list, not an error.
\<close>

theorem prefix_selection:
  assumes "hits \<noteq> []" and "hit_id ` set hits \<subseteq> fst ` set vault"
  shows "distinct (ranked_ids hits) \<and>
     set (ranked_ids hits) = hit_id ` set hits \<and>
     sorted_wrt (\<lambda>a b. combined_score hits b \<le> combined_score hits a) (ranked_ids hits) \<and>
     (\<exists>k\<le>length (ranked_ids hits).
       get_chunks_from_hits vault nt hits mx = Inr (map (entry_of vault) (take k (ranked_ids hits))) \<and>
       (\<forall>j\<le>length (ranked_ids hits).
          j \<le> k \<longleftrightarrow> j = 0 \<or> cumulative_tokens vault nt (take j (ranked_ids hits)) \<le> mx) \<and>
       (mx < chunk_tokens vault nt (hd (ranked_ids hits)) \<longrightarrow>
          get_chunks_from_hits vault nt hits mx = Inr []))"
proof -
  let ?ids = "ranked_ids hits"
  from assms(2) have "set ?ids \<subseteq> fst ` set vault" by (simp add: ranked_ids_set)
  from select_chunks_prefix_within[OF this, of nt mx 0 "[]"] obtain k where k: "k \<le> length ?ids"
    "select_chunks vault nt mx ?ids 0 [] = Inr (map (entry_of vault) (take k ?ids))"
    "\<forall>j\<le>length ?ids. j \<le> k \<longleftrightarrow> j = 0 \<or> cumulative_tokens vault nt (take j ?ids) \<le> mx"
    by auto
  from assms(1) have ne: "?ids \<noteq> []"
    using ranked_ids_set[of hits] by (metis image_is_empty set_empty)
  have g: "get_chunks_from_hits vault nt hits mx = Inr (map (entry_of vault) (take k ?ids))"
    using assms(1) k(2) by (simp add: get_chunks_from_hits_def)
  have "k = 0" if ov: "mx < chunk_tokens vault nt (hd ?ids)"
  proof -
    from ne have one: "Suc 0 \<le> length ?ids" by (cases ?ids) simp_all
    from ne have "take (Suc 0) ?ids = [hd ?ids]" by (cases ?ids) simp_all
    then have "cumulative_tokens vault nt (take (Suc 0) ?ids) = chunk_tokens vault nt (hd ?ids)"
      by (simp add: cumulative_tokens_def)
    with k(3) one ov show ?thesis by (metis Suc_le_eq gr0I leD n_not_Suc_n)
  qed
  with g have "mx < chunk_tokens vault nt (hd ?ids) \<longrightarrow> get_chunks_from_hits vault nt hits mx = Inr []"
    by simp
  with k(1) g k(3) have sel: "\<exists>k\<le>length ?ids.
       get_chunks_from_hits vault nt hits mx = Inr (map (entry_of vault) (take k ?ids)) \<and>
       (\<forall>j\<le>length ?ids. j \<le> k \<longleftrightarrow> j = 0 \<or> cumulative_tokens vault nt (take j ?ids) \<le> mx) \<and>
       (mx < chunk_tokens vault nt (hd ?ids) \<longrightarrow> get_chunks_from_hits vault nt hits mx = Inr [])"
    by blast
  from ranked_ids_distinct[of hits] ranked_ids_set[of hits] ranked_ids_sorted[of hits] sel
  show ?thesis by (intro conjI)
qed

theorem prefix_selection_witness:
  "fusion_hits \<noteq> [] \<and> hit_id ` set fusion_hits \<subseteq> fst ` set scenario_vault \<and>
   ranked_ids fusion_hits = [''B'', ''A'', ''C''] \<and>
   sorted_wrt (\<lambda>a b. combined_score fusion_hits b \<le> combined_score fusion_hits a)
     (ranked_ids fusion_hits) \<and>
   get_chunks_from_hits scenario_vault scenario_tokens fusion_hits 100 =
     Inr [\<lparr>ctx_title = ''b.md'', ctx_chunk = ''b''\<rparr>, \<lparr>ctx_title = ''a.md'', ctx_chunk = ''a''\<rparr>] \<and>
   (\<exists>k\<le>length (ranked_ids fusion_hits).
      get_chunks_from_hits scenario_vault scenario_tokens fusion_hits 100 =
        Inr (map (entry_of scenario_vault) (take k (ranked_ids fusion_hits))) \<and>
      k = 2)"
proof -
  have h1: "fusion_hits \<noteq> []" by (simp add: fusion_hits_def)
  have h2: "hit_id ` set fusion_hits \<subseteq> fst ` set scenario_vault"
    by (simp add: fusion_hits_def scenario_vault_def)
  note c = prefix_selection[OF h1 h2, of scenario_tokens 100]
  from c have s: "sorted_wrt (\<lambda>a b. combined_score fusion_hits b \<le> combined_score fusion_hits a)
     (ranked_ids fusion_hits)" by blast
  from c obtain k where
    k: "k \<le> length (ranked_ids fusion_hits)"
       "get_chunks_from_hits scenario_vault scenario_tokens fusion_hits 100 =
          Inr (map (entry_of scenario_vault) (take k (ranked_ids fusion_hits)))"
    by blast
  from k(2) have "map (entry_of scenario_vault) (take k (ranked_ids fusion_hits)) =
      [\<lparr>ctx_title = ''b.md'', ctx_chunk = ''b''\<rparr>, \<lparr>ctx_title = ''a.md'', ctx_chunk = ''a''\<rparr>]"
    by (simp add: fusion_result)
  then have "length (map (entry_of scenario_vault) (take k (ranked_ids fusion_hits))) = 2"
    by simp
  with k(1) have "k = 2" by simp
  with h1 h2 k s fusion_ranked_ids fusion_result show ?thesis by blast
qed

lemma select_chunks_is_prefix:
  "select_chunks vault nt mx ids tc acc = Inr out \<Longrightarrow>
   \<exists>k\<le>length ids. out = acc @ map (entry_of vault) (take k ids)"
proof (induction ids arbitrary: tc acc)
  case Nil
  then show ?case by simp
next
  case (Cons i ids)
  show ?case
  proof (cases "map_of vault i")
    case None
    with Cons.prems show ?thesis by simp
  next
    case (Some d)
    let ?e = "\<lparr>ctx_title = title d, ctx_chunk = chunk d\<rparr>"
    have e: "entry_of vault i = ?e" by (simp add: entry_of_def Some)
    show ?thesis
    proof (cases "tc + int (nt (chunk d)) > mx")
      case True
      with Cons.prems Some have "out = acc" by (simp add: Let_def)
      then show ?thesis by (intro exI[of _ 0]) simp
    next
      case False
      with Cons.prems Some
      have "select_chunks vault nt mx ids (tc + int (nt (chunk d))) (acc @ [?e]) = Inr out"
        by (simp add: Let_def)
      from Cons.IH[OF this] obtain k where "k \<le> length ids"
        "out = (acc @ [?e]) @ map (entry_of vault) (take k ids)" by blast
      with e show ?thesis by (intro exI[of _ "Suc k"]) simp
    qed
  qed
qed

text \<open>
  C2. The score that the ranked frame gives an id is the sum, over the hits bearing the
  id, of \<open>10 - rank\<close>; every id of a hit has one row and no id has two, so the output,
  the entries of a duplicate-free list of ids, holds an id at most once. An id hit at
  rank 0 and at rank 2 scores 18 and has exactly one row.
\<close>

theorem fused_score_and_dedup:
  "distinct (ranked_ids hits) \<and>
   set (ranked_ids hits) = hit_id ` set hits \<and>
   (\<forall>i s. (i, s) \<in> set (ranked hits) \<longrightarrow> s = combined_score hits i) \<and>
   (\<forall>x h1 h2. filter (\<lambda>h. hit_id h = x) hits = [h1, h2] \<and> hit_rank h1 = 0 \<and> hit_rank h2 = 2 \<longrightarrow>
      (x, 18) \<in> set (ranked hits) \<and> count_list (ranked_ids hits) x = 1) \<and>
   (\<forall>vault nt mx out. get_chunks_from_hits vault nt hits mx = Inr out \<longrightarrow>
      (\<exists>ids. distinct ids \<and> set ids \<subseteq> hit_id ` set hits \<and> out = map (entry_of vault) ids))"
proof (intro conjI allI impI)
  show "distinct (ranked_ids hits)" by (rule ranked_ids_distinct)
  show "set (ranked_ids hits) = hit_id ` set hits" by (rule ranked_ids_set)
next
  fix i s assume "(i, s) \<in> set (ranked hits)"
  then show "s = combined_score hits i" by (rule ranked_score)
next
  fix x h1 h2
  assume a: "filter (\<lambda>h. hit_id h = x) hits = [h1, h2] \<and> hit_rank h1 = 0 \<and> hit_rank h2 = 2"
  then have cs: "combined_score hits x = 18" by (simp add: combined_score_def)
  from a have "h1 \<in> set (filter (\<lambda>h. hit_id h = x) hits)" by simp
  then have mem: "x \<in> hit_id ` set hits" by auto
  from ranked_mem[OF mem] cs show "(x, 18) \<in> set (ranked hits)" by simp
  from mem have "x \<in> set (ranked_ids hits)" by (simp add: ranked_ids_set)
  with ranked_ids_distinct[of hits] show "count_list (ranked_ids hits) x = 1"
    by (simp add: distinct_count_atmost_1 flip: count_mset)
next
  fix vault nt mx out
  assume r: "get_chunks_from_hits vault nt hits mx = Inr out"
  then have "select_chunks vault nt mx (ranked_ids hits) 0 [] = Inr out"
    by (simp add: get_chunks_from_hits_def split: if_splits)
  from select_chunks_is_prefix[OF this] obtain k where
    k: "out = map (entry_of vault) (take k (ranked_ids hits))" by auto
  have "distinct (take k (ranked_ids hits))" by (simp add: ranked_ids_distinct)
  moreover have "set (take k (ranked_ids hits)) \<subseteq> hit_id ` set hits"
    using set_take_subset[of k "ranked_ids hits"] by (simp add: ranked_ids_set)
  ultimately show "\<exists>ids. distinct ids \<and> set ids \<subseteq> hit_id ` set hits \<and> out = map (entry_of vault) ids"
    using k by blast
qed

theorem fused_score_and_dedup_witness:
  "filter (\<lambda>h. hit_id h = ''X'') dedup_hits =
      [\<lparr>hit_id = ''X'', hit_rank = 0\<rparr>, \<lparr>hit_id = ''X'', hit_rank = 2\<rparr>] \<and>
   (''X'', 18) \<in> set (ranked dedup_hits) \<and> count_list (ranked_ids dedup_hits) ''X'' = 1 \<and>
   (''Y'', 18) \<in> set (ranked dedup_hits)"
proof -
  have f: "filter (\<lambda>h. hit_id h = ''X'') dedup_hits =
      [\<lparr>hit_id = ''X'', hit_rank = 0\<rparr>, \<lparr>hit_id = ''X'', hit_rank = 2\<rparr>]"
    by (simp add: dedup_hits_def)
  have y: "(''Y'', 18) \<in> set (ranked dedup_hits)" by code_simp
  from fused_score_and_dedup[of dedup_hits] f y show ?thesis by simp
qed

text \<open>
  C4. On the empty hit list \<^const>\<open>get_chunks_from_hits\<close> does not return the empty list:
  the column lookup \<^verbatim>\<open>df['rank']\<close> raises \<^verbatim>\<open>KeyError\<close>.
\<close>

theorem empty_hits_raise: "get_chunks_from_hits vault nt [] mx = Inl (KeyError ''rank'')"
  by (simp add: get_chunks_from_hits_def)

text \<open>
  C5. When two ids are each borne by exactly one hit and the rank of the first is the
  smaller, the first has the strictly greater combined score, both have their row in
  the ranked frame, and the first stands before the second in the ranked id list.
\<close>

theorem score_monotone:
  assumes "filter (\<lambda>h. hit_id h = x) hits = [hx]"
      and "filter (\<lambda>h. hit_id h = y) hits = [hy]"
      and "hit_rank hx < hit_rank hy"
  shows "combined_score hits y < combined_score hits x \<and>
         (x, combined_score hits x) \<in> set (ranked hits) \<and>
         (y, combined_score hits y) \<in> set (ranked hits) \<and>
         (\<exists>pre mid post. ranked_ids hits = pre @ x # mid @ y # post)"
proof -
  let ?sx = "combined_score hits x" and ?sy = "combined_score hits y"
  from assms have lt: "?sy < ?sx" by (simp add: combined_score_def)
  then have ne: "x \<noteq> y" by auto
  from assms(1) have "hx \<in> set (filter (\<lambda>h. hit_id h = x) hits)" by simp
  then have "x \<in> hit_id ` set hits" by auto
  then have mx: "(x, ?sx) \<in> set (ranked hits)" by (rule ranked_mem)
  from assms(2) have "hy \<in> set (filter (\<lambda>h. hit_id h = y) hits)" by simp
  then have "y \<in> hit_id ` set hits" by auto
  then have my: "(y, ?sy) \<in> set (ranked hits)" by (rule ranked_mem)
  from mx obtain ps rs where sp: "ranked hits = ps @ (x, ?sx) # rs"
    by (meson split_list)
  have "(y, ?sy) \<notin> set ps"
  proof
    assume "(y, ?sy) \<in> set ps"
    with ranked_sorted[of hits] sp have "?sx \<le> ?sy"
      by (auto simp: sorted_wrt_append)
    with lt show False by simp
  qed
  with my sp ne have "(y, ?sy) \<in> set rs" by auto
  then obtain ms qs where "rs = ms @ (y, ?sy) # qs" by (meson split_list)
  with sp have "ranked_ids hits = map fst ps @ x # map fst ms @ y # map fst qs"
    by (simp add: ranked_ids_def)
  with lt mx my show ?thesis by blast
qed

theorem score_monotone_witness:
  "filter (\<lambda>h. hit_id h = ''B'') scenario_hits = [\<lparr>hit_id = ''B'', hit_rank = 0\<rparr>] \<and>
   filter (\<lambda>h. hit_id h = ''C'') scenario_hits = [\<lparr>hit_id = ''C'', hit_rank = 1\<rparr>] \<and>
   combined_score scenario_hits ''C'' < combined_score scenario_hits ''B'' \<and>
   (\<exists>pre mid post. ranked_ids scenario_hits = pre @ ''B'' # mid @ ''C'' # post)"
proof -
  have b: "filter (\<lambda>h. hit_id h = ''B'') scenario_hits = [\<lparr>hit_id = ''B'', hit_rank = 0\<rparr>]"
    by (simp add: scenario_hits_def)
  have c: "filter (\<lambda>h. hit_id h = ''C'') scenario_hits = [\<lparr>hit_id = ''C'', hit_rank = 1\<rparr>]"
    by (simp add: scenario_hits_def)
  from score_monotone[OF b c] b c show ?thesis by simp
qed







section \<open>Properties and claims of the semantic index\<close>

lemma argsort_perm: "mset (argsort xs) = mset [0..<length xs]"
  by (simp add: argsort_def)

lemma argsort_distinct: "distinct (argsort xs)"
  by (simp add: argsort_def)

lemma argsort_set: "set (argsort xs) = {0..<length xs}"
  by (simp add: argsort_def)

lemma argsort_length: "length (argsort xs) = length xs"
  by (simp add: argsort_def)

lemma argsort_sorted: "sorted_wrt (\<lambda>i j. xs ! i \<le> xs ! j) (argsort xs)"
proof -
  have "sorted (map (\<lambda>i. xs ! i) (argsort xs))"
    unfolding argsort_def by (rule sorted_sort_key)
  then show ?thesis by (simp add: sorted_map)
qed

lemma slice_from_neg:
  "0 < n \<Longrightarrow> slice_from (- n) xs = drop (length xs - nat n) xs"
  by (auto simp: slice_from_def Let_def max_def intro!: arg_cong2[where f = drop])

lemma query_semantic_length:
  assumes "0 < n"
  shows "length (query_semantic q arr n) = min (nat n) (length arr)"
  using assms by (simp add: query_semantic_def Let_def slice_from_neg argsort_length)

lemma query_semantic_distinct: "distinct (query_semantic q arr n)"
  by (simp add: query_semantic_def Let_def slice_from_def argsort_distinct)

lemma query_semantic_subset: "set (query_semantic q arr n) \<subseteq> {0..<length arr}"
proof -
  let ?cs = "map (\<lambda>row. dot row q) arr"
  have "set (query_semantic q arr n) \<subseteq> set (argsort ?cs)"
    by (auto simp: query_semantic_def Let_def slice_from_def dest: in_set_dropD)
  then show ?thesis by (simp add: argsort_set)
qed

lemma query_semantic_sorted:
  "sorted_wrt (\<lambda>i j. cos_sim q arr j \<le> cos_sim q arr i) (query_semantic q arr n)"
proof -
  let ?cs = "map (\<lambda>row. dot row q) arr"
  let ?sl = "slice_from (- n) (argsort ?cs)"
  have "sorted_wrt (\<lambda>i j. ?cs ! i \<le> ?cs ! j) ?sl"
    unfolding slice_from_def Let_def by (rule sorted_wrt_drop) (rule argsort_sorted)
  then have s: "sorted_wrt (\<lambda>i j. ?cs ! j \<le> ?cs ! i) (rev ?sl)"
    by (simp add: sorted_wrt_rev)
  have sub: "set (rev ?sl) \<subseteq> {0..<length arr}"
    using query_semantic_subset[of q arr n] by (simp add: query_semantic_def Let_def)
  have "sorted_wrt (\<lambda>i j. cos_sim q arr j \<le> cos_sim q arr i) (rev ?sl)"
  proof (rule sorted_wrt_mono_rel[OF _ s])
    fix i j assume "i \<in> set (rev ?sl)" "j \<in> set (rev ?sl)" "?cs ! j \<le> ?cs ! i"
    with sub show "cos_sim q arr j \<le> cos_sim q arr i"
      by (auto simp: cos_sim_def subset_iff)
  qed
  then show ?thesis by (simp add: query_semantic_def Let_def)
qed

lemma update_fresh: "k \<notin> fst ` set al \<Longrightarrow> AList.update k v al = al @ [(k, v)]"
  by (induction al) auto

lemma index_chunks_enumerate:
  "fst ` set ei \<subseteq> {..<idx} \<Longrightarrow>
   index_chunks vault ei idx = ei @ enumerate idx (embedded_ids vault)"
proof (induction vault arbitrary: ei idx)
  case Nil
  then show ?case by (simp add: embedded_ids_def)
next
  case (Cons p vault)
  obtain chunk_id doc where p: "p = (chunk_id, doc)" by (cases p)
  show ?case
  proof (cases "doc_type doc = ''doc''")
    case True
    with Cons p show ?thesis by (simp add: embedded_ids_def)
  next
    case False
    from Cons.prems have fresh: "idx \<notin> fst ` set ei" by auto
    have "fst ` set (ei @ [(idx, chunk_id)]) \<subseteq> {..<idx + 1}"
      using Cons.prems by auto
    from Cons.IH[OF this] False p fresh show ?thesis
      by (simp add: update_fresh embedded_ids_def)
  qed
qed

lemma build_embedding_index_enumerate:
  "build_embedding_index vault = enumerate 0 (embedded_ids vault)"
  using index_chunks_enumerate[of "[]" 0 vault] by (simp add: build_embedding_index_def)

lemma embedded_ids_distinct: "distinct (map fst vault) \<Longrightarrow> distinct (embedded_ids vault)"
  unfolding embedded_ids_def by (simp add: distinct_map_filter)

lemma map_of_enumerate:
  "map_of (enumerate 0 xs) i = (if i < length xs then Some (xs ! i) else None)"
proof (cases "i < length xs")
  case True
  then have "(i, xs ! i) \<in> set (enumerate 0 xs)" by (simp add: in_set_enumerate_eq)
  moreover have "distinct (map fst (enumerate 0 xs))" by simp
  ultimately show ?thesis using True by simp
next
  case False
  then have "i \<notin> fst ` set (enumerate 0 xs)" by (auto simp: in_set_enumerate_eq)
  then show ?thesis using False by (simp add: map_of_eq_None_iff)
qed

lemma parse_semantic_loop_ok:
  "set indices \<subseteq> {..<length ids} \<Longrightarrow>
   parse_semantic_loop (enumerate 0 ids) indices rank hits =
     Inr (hits @ map (\<lambda>(k, i). \<lparr>hit_id = ids ! i, hit_rank = int k\<rparr>) (enumerate rank indices))"
  by (induction indices arbitrary: rank hits) (simp_all add: map_of_enumerate)

lemma parse_semantic_loop_Inr:
  "parse_semantic_loop (enumerate 0 ids) indices rank hits = Inr out \<Longrightarrow>
   set indices \<subseteq> {..<length ids}"
  by (induction indices arbitrary: rank hits) (auto simp: map_of_enumerate split: if_splits)

lemma hit_ids_of_enumerate:
  "map hit_id (map (\<lambda>(k, i). \<lparr>hit_id = ids ! i, hit_rank = int k\<rparr>) (enumerate rank indices)) =
   map (\<lambda>i. ids ! i) indices"
  by (induction indices arbitrary: rank) simp_all

lemma hit_ranks_of_enumerate:
  "map hit_rank (map (\<lambda>(k, i). \<lparr>hit_id = ids ! i, hit_rank = int k\<rparr>) (enumerate rank indices)) =
   map int [rank..<rank + length indices]"
  by (induction indices arbitrary: rank) (simp_all add: upt_rec)

lemma distinct_map_nth:
  "distinct ids \<Longrightarrow> distinct indices \<Longrightarrow> set indices \<subseteq> {..<length ids} \<Longrightarrow>
   distinct (map (\<lambda>i. ids ! i) indices)"
  by (auto simp: distinct_map inj_on_def nth_eq_iff_index_eq subset_iff)

text \<open>
  C10. The row indices that \<^const>\<open>query_semantic\<close> returns are pairwise distinct for every
  matrix, query and \<open>n_results\<close>. For a vault with unique keys, \<^const>\<open>build_embedding_index\<close>
  has the keys \<open>0, 1, ...\<close> and pairwise distinct chunk ids as values, so the hits that
  \<^const>\<open>parse_semantic_response\<close> returns bear pairwise distinct ids; and it does return
  hits when the matrix has as many rows as the index has entries.
\<close>

theorem semantic_hits_distinct:
  assumes "distinct (map fst vault)"
  shows "distinct (query_semantic q arr n) \<and>
         map fst (build_embedding_index vault) = [0..<length (build_embedding_index vault)] \<and>
         distinct (map snd (build_embedding_index vault)) \<and>
         (\<forall>hits. parse_semantic_response (query_semantic q arr n) (build_embedding_index vault) = Inr hits
            \<longrightarrow> distinct (map hit_id hits)) \<and>
         (length arr = length (build_embedding_index vault) \<longrightarrow>
            (\<exists>hits. parse_semantic_response (query_semantic q arr n) (build_embedding_index vault) = Inr hits))"
proof -
  let ?ids = "embedded_ids vault" and ?ix = "query_semantic q arr n"
  have bi: "build_embedding_index vault = enumerate 0 ?ids" by (rule build_embedding_index_enumerate)
  have d: "distinct ?ids" using assms by (rule embedded_ids_distinct)
  have di: "distinct ?ix" by (rule query_semantic_distinct)
  have keys: "map fst (build_embedding_index vault) = [0..<length (build_embedding_index vault)]"
    by (simp add: bi)
  have vals: "distinct (map snd (build_embedding_index vault))"
    using d by (simp add: bi)
  have dh: "distinct (map hit_id hits)"
    if r: "parse_semantic_response ?ix (build_embedding_index vault) = Inr hits" for hits
  proof -
    from r have l: "parse_semantic_loop (enumerate 0 ?ids) ?ix 0 [] = Inr hits"
      by (simp add: parse_semantic_response_def bi)
    then have sub: "set ?ix \<subseteq> {..<length ?ids}" by (rule parse_semantic_loop_Inr)
    from parse_semantic_loop_ok[OF sub, of 0 "[]"] l
    have "hits = map (\<lambda>(k, i). \<lparr>hit_id = ?ids ! i, hit_rank = int k\<rparr>) (enumerate 0 ?ix)"
      by simp
    then have "map hit_id hits = map (\<lambda>i. ?ids ! i) ?ix"
      by (simp only: hit_ids_of_enumerate)
    with distinct_map_nth[OF d di sub] show ?thesis by simp
  qed
  have ex: "\<exists>hits. parse_semantic_response ?ix (build_embedding_index vault) = Inr hits"
    if len: "length arr = length (build_embedding_index vault)"
  proof -
    from len have "length arr = length ?ids" by (simp add: bi)
    with query_semantic_subset[of q arr n] have "set ?ix \<subseteq> {..<length ?ids}" by auto
    from parse_semantic_loop_ok[OF this, of 0 "[]"] show ?thesis
      by (simp add: parse_semantic_response_def bi)
  qed
  from di keys vals dh ex show ?thesis by blast
qed

lemma embed_chunks_batches:
  "batch_size \<noteq> 0 \<Longrightarrow> n = int (length cb) \<Longrightarrow>
   \<exists>B cb'. embed_chunks gbe batch_size vault cb n el = Inr (cb', int (length cb'), el @ map gbe B) \<and>
     concat B @ cb' = cb @ embedded_texts vault"
proof (induction vault arbitrary: cb n el)
  case Nil
  then show ?case by (simp add: embedded_texts_def)
next
  case (Cons p vault)
  obtain chunk_id doc where p: "p = (chunk_id, doc)" by (cases p)
  show ?case
  proof (cases "doc_type doc = ''doc''")
    case True
    with Cons p show ?thesis by (simp add: embedded_texts_def)
  next
    case False
    let ?t = "process_chunk (chunk doc)"
    have texts_eq: "embedded_texts ((chunk_id, doc) # vault) = ?t # embedded_texts vault"
      using False by (simp add: embedded_texts_def)
    show ?thesis
    proof (cases "(n + 1) mod batch_size = 0")
      case True
      from Cons.IH[OF Cons.prems(1), of 0 "[]" "el @ [gbe (cb @ [?t])]"]
      obtain B cb' where
        "embed_chunks gbe batch_size vault [] 0 (el @ [gbe (cb @ [?t])]) =
           Inr (cb', int (length cb'), (el @ [gbe (cb @ [?t])]) @ map gbe B)"
        "concat B @ cb' = [] @ embedded_texts vault" by auto
      then have "embed_chunks gbe batch_size (p # vault) cb n el =
           Inr (cb', int (length cb'), el @ map gbe ((cb @ [?t]) # B)) \<and>
         concat ((cb @ [?t]) # B) @ cb' = cb @ embedded_texts (p # vault)"
        using True False p Cons.prems(1) by (simp add: Let_def texts_eq)
      then show ?thesis by blast
    next
      case nz: False
      from Cons.prems(2) have "n + 1 = int (length (cb @ [?t]))" by simp
      from Cons.IH[OF Cons.prems(1) this, of el]
      obtain B cb' where
        "embed_chunks gbe batch_size vault (cb @ [?t]) (n + 1) el =
           Inr (cb', int (length cb'), el @ map gbe B)"
        "concat B @ cb' = (cb @ [?t]) @ embedded_texts vault" by auto
      then have "embed_chunks gbe batch_size (p # vault) cb n el =
           Inr (cb', int (length cb'), el @ map gbe B) \<and>
         concat B @ cb' = cb @ embedded_texts (p # vault)"
        using nz False p Cons.prems(1) by (simp add: Let_def texts_eq)
      then show ?thesis by blast
    qed
  qed
qed

lemma build_embedding_array_batches:
  assumes "batch_size \<noteq> 0" and "embedded_texts vault \<noteq> []"
  shows "\<exists>B. build_embedding_array vault gbe batch_size = Inr (concat (map gbe B)) \<and>
             concat B = embedded_texts vault"
proof -
  from embed_chunks_batches[OF assms(1), of 0 "[]" gbe vault "[]"]
  obtain B cb' where e: "embed_chunks gbe batch_size vault [] 0 [] = Inr (cb', int (length cb'), map gbe B)"
    and c: "concat B @ cb' = embedded_texts vault" by auto
  show ?thesis
  proof (cases "cb' = []")
    case True
    with c assms(2) have "B \<noteq> []" by auto
    with e c True show ?thesis
      by (intro exI[of _ B]) (simp add: build_embedding_array_def)
  next
    case False
    with e c show ?thesis
      by (intro exI[of _ "B @ [cb']"]) (simp add: build_embedding_array_def)
  qed
qed

lemma length_concat_map_embed:
  "\<forall>b. length (gbe b) = length b \<Longrightarrow> length (concat (map gbe B)) = length (concat B)"
  by (induction B) simp_all

lemma embedded_texts_by_id:
  "distinct (map fst vault) \<Longrightarrow>
   embedded_texts vault = map (\<lambda>chunk_id. process_chunk (chunk_of vault chunk_id)) (embedded_ids vault)"
proof -
  assume d: "distinct (map fst vault)"
  have "\<And>p. p \<in> set vault \<Longrightarrow> chunk_of vault (fst p) = chunk (snd p)"
    using d by (auto simp: chunk_of_def)
  then show ?thesis
    by (auto simp: embedded_texts_def embedded_ids_def case_prod_beta)
qed

lemma map_snd_enumerate: "map (\<lambda>(i, x). f x) (enumerate k xs) = map f xs"
  by (induction xs arbitrary: k) simp_all

text \<open>
  C7. For a vault with unique keys and an entry of type \<^verbatim>\<open>chunk\<close>, a non-zero batch size
  and an embedder that returns one row per text, \<^const>\<open>build_embedding_array\<close> returns a
  matrix with as many rows as \<^const>\<open>build_embedding_index\<close> has entries; the keys of the
  index are the row positions; the texts embedded, batch after batch, are the processed
  texts of the chunk ids stored at keys \<open>0, 1, ...\<close> in this order; and for an embedder
  that works text by text, row \<open>i\<close> is the embedding of the text of the id at key \<open>i\<close>.
\<close>

theorem embedding_rows_lockstep:
  assumes "batch_size \<noteq> 0"
      and "\<forall>b. length (gbe b) = length b"
      and "distinct (map fst vault)"
      and "\<exists>p\<in>set vault. doc_type (snd p) = ''chunk''"
  shows "\<exists>batches rows.
     build_embedding_array vault gbe batch_size = Inr rows \<and>
     rows = concat (map gbe batches) \<and>
     length rows = length (build_embedding_index vault) \<and>
     map fst (build_embedding_index vault) = [0..<length rows] \<and>
     concat batches =
       map (\<lambda>(i, chunk_id). process_chunk (chunk_of vault chunk_id)) (build_embedding_index vault) \<and>
     (\<forall>f. gbe = map f \<longrightarrow>
        rows = map (\<lambda>(i, chunk_id). f (process_chunk (chunk_of vault chunk_id)))
                 (build_embedding_index vault))"
proof -
  have bi: "build_embedding_index vault = enumerate 0 (embedded_ids vault)"
    by (rule build_embedding_index_enumerate)
  have texts_eq: "embedded_texts vault =
      map (\<lambda>(i, chunk_id). process_chunk (chunk_of vault chunk_id)) (build_embedding_index vault)"
    by (simp only: bi map_snd_enumerate embedded_texts_by_id[OF assms(3)])
  from assms(4) obtain p where "p \<in> set vault" "doc_type (snd p) \<noteq> ''doc''" by auto
  then have "p \<in> set (filter (\<lambda>(chunk_id, doc). doc_type doc \<noteq> ''doc'') vault)"
    by (auto simp: case_prod_beta)
  then have ne: "embedded_texts vault \<noteq> []"
    unfolding embedded_texts_def by (metis empty_iff list.set(1) map_is_Nil_conv)
  from build_embedding_array_batches[OF assms(1) ne, of gbe]
  obtain B where B: "build_embedding_array vault gbe batch_size = Inr (concat (map gbe B))"
    "concat B = embedded_texts vault" by blast
  let ?rows = "concat (map gbe B)"
  have len: "length ?rows = length (build_embedding_index vault)"
    using length_concat_map_embed[OF assms(2), of B] B(2) by (simp add: texts_eq)
  have keys: "map fst (build_embedding_index vault) = [0..<length ?rows]"
    by (simp only: len) (simp add: bi)
  have pw: "?rows = map (\<lambda>(i, chunk_id). f (process_chunk (chunk_of vault chunk_id)))
                 (build_embedding_index vault)" if "gbe = map f" for f
  proof -
    from that have "?rows = map f (concat B)" by (simp add: map_concat)
    also have "\<dots> = map f (map (\<lambda>(i, chunk_id). process_chunk (chunk_of vault chunk_id)) (build_embedding_index vault))"
      using B(2) texts_eq by simp
    finally show ?thesis by (simp add: case_prod_beta comp_def)
  qed
  have cb: "concat B =
      map (\<lambda>(i, chunk_id). process_chunk (chunk_of vault chunk_id)) (build_embedding_index vault)"
    using B(2) texts_eq by simp
  show ?thesis
    apply (rule exI[of _ B])
    apply (rule exI[of _ ?rows])
    using B(1) len keys cb pw by blast
qed

lemma semantic_vault_index:
  "build_embedding_index semantic_vault = [(0, ''n.md-0''), (1, ''n.md-1'')]"
  by (simp add: build_embedding_index_def semantic_vault_def)

text \<open>
  For a positive \<open>n_results\<close> the result has \<open>min n_results rows\<close> indices, all of them rows
  of the matrix, in the order of non-increasing similarity.
\<close>

lemma query_semantic_top_n:
  assumes "0 < n"
  shows "length (query_semantic q arr n) = min (nat n) (length arr) \<and>
         set (query_semantic q arr n) \<subseteq> {0..<length arr} \<and>
         sorted_wrt (\<lambda>i j. cos_sim q arr j \<le> cos_sim q arr i) (query_semantic q arr n)"
  using assms query_semantic_length query_semantic_subset query_semantic_sorted by blast

text \<open>
  C6. With \<open>n_results = 0\<close> the slice \<^verbatim>\<open>[-0:]\<close> is the whole array: all three row indices
  come back, not \<open>min 0 3 = 0\<close> of them.
\<close>

theorem query_semantic_zero_results:
  "query_semantic [1::int] [[3], [1], [2]] 0 = [0, 2, 1]"
  by code_simp

theorem embedding_rows_lockstep_witness:
  "(4::int) \<noteq> 0 \<and> (\<forall>b::string list. length (map length b) = length b) \<and>
   distinct (map fst semantic_vault) \<and> (\<exists>p\<in>set semantic_vault. doc_type (snd p) = ''chunk'') \<and>
   (\<exists>rows. build_embedding_array semantic_vault (map length) 4 = Inr rows \<and>
      length rows = length (build_embedding_index semantic_vault) \<and> length rows = 2)"
proof -
  have h1: "(4::int) \<noteq> 0" by simp
  have h2: "\<forall>b::string list. length (map length b) = length b" by simp
  have h3: "distinct (map fst semantic_vault)" by (simp add: semantic_vault_def)
  have h4: "\<exists>p\<in>set semantic_vault. doc_type (snd p) = ''chunk''" by (simp add: semantic_vault_def)
  from embedding_rows_lockstep[OF h1 h2 h3 h4] obtain rows where
    "build_embedding_array semantic_vault (map length) 4 = Inr rows"
    "length rows = length (build_embedding_index semantic_vault)" by blast
  with h1 h2 h3 h4 show ?thesis by (simp add: semantic_vault_index)
qed

theorem semantic_hits_distinct_witness:
  "distinct (map fst semantic_vault) \<and>
   distinct (query_semantic [1::int] [[3], [5]] 10) \<and>
   parse_semantic_response (query_semantic [1::int] [[3], [5]] 10) (build_embedding_index semantic_vault) =
     Inr [\<lparr>hit_id = ''n.md-1'', hit_rank = 0\<rparr>, \<lparr>hit_id = ''n.md-0'', hit_rank = 1\<rparr>]"
proof -
  have h: "distinct (map fst semantic_vault)" by (simp add: semantic_vault_def)
  from semantic_hits_distinct[OF h, of "[1::int]" "[[3], [5]]" 10]
  have d: "distinct (query_semantic [1::int] [[3], [5]] 10)" by blast
  have q: "query_semantic [1::int] [[3], [5]] 10 = [1, 0]" by code_simp
  have "parse_semantic_response [1, 0] [(0, ''n.md-0''), (1, ''n.md-1'')] =
     Inr [\<lparr>hit_id = ''n.md-1'', hit_rank = 0\<rparr>, \<lparr>hit_id = ''n.md-0'', hit_rank = 1\<rparr>]"
    by (simp add: parse_semantic_response_def)
  with h d show ?thesis by (simp only: q semantic_vault_index)
qed

section \<open>Properties and claims of vault ingestion\<close>

text \<open>
  C8. The last chunk of a document is not kept under the rule of the interior chunks: a
  chunk of exactly \<open>min_chunk_lines = 3\<close> lines is discarded when it ends the document
  (the final check is \<^verbatim>\<open>>\<close>) and kept when a bullet follows it (the check in the loop
  is \<^verbatim>\<open>>=\<close>).
\<close>

theorem last_chunk_discarded:
  "chunk_doc_to_dict three_lines 3 = [] \<and>
   chunk_doc_to_dict (three_lines @ [''- d'' @ [CHR 0x0A]]) 3 = [(0, three_lines)]"
  by code_simp































end
